theory Spec2Isabelle
  imports Complex_Main "HOL-Library.Multiset"
begin

section \<open>The goga engine: data model\<close>

text \<open>
  The engine (package goga) works on a slice of \<open>Chromosome\<close> interface values. The
  chromosomes are references: \<open>Normalize\<close>, \<open>AccNormalize\<close>, \<open>Mutate\<close> and
  \<open>CalculateFitness\<close> change the object behind the reference, and the slices of the
  engine share these objects. A chromosome is therefore an address, and the objects live
  in a store from addresses to records with the two fields of the example's \<open>Member\<close>.

  Go's \<open>float64\<close> is modelled by its four kinds of value: NaN, the two infinities and
  the finite numbers. Comparison and the NaN test are those of IEEE 754. Addition and
  division of finite numbers are exact: rounding, overflow to an infinity and underflow
  are not modelled, so nothing is stated below about the value a sum or a quotient has
  in Go, beyond numbers that \<open>float64\<close> represents and combines exactly. The sign of a
  zero is not kept: the only divisor of the engine is a running sum that starts at
  \<open>0.0\<close>, which is never the negative zero.
\<close>

datatype float64 = NaN | NInf | Fin real | PInf

type_synonym addr = nat

record 'v Member =
  Fitness :: float64
  Value :: 'v

type_synonym 'v store = "addr \<Rightarrow> 'v Member"

datatype error = IndexOutOfRange | Deadlock | SendOnClosedChannel

subsection \<open>Floating-point operations the engine uses\<close>

fun isNaN :: "float64 \<Rightarrow> bool" where
  "isNaN NaN = True"
| "isNaN _ = False"

text \<open>\<open>x + y\<close>\<close>

fun f64_add :: "float64 \<Rightarrow> float64 \<Rightarrow> float64" where
  "f64_add NaN _ = NaN"
| "f64_add _ NaN = NaN"
| "f64_add PInf NInf = NaN"
| "f64_add NInf PInf = NaN"
| "f64_add PInf _ = PInf"
| "f64_add _ PInf = PInf"
| "f64_add NInf _ = NInf"
| "f64_add _ NInf = NInf"
| "f64_add (Fin a) (Fin b) = Fin (a + b)"

text \<open>\<open>x / y\<close>; a zero divisor is the positive zero.\<close>

fun f64_div :: "float64 \<Rightarrow> float64 \<Rightarrow> float64" where
  "f64_div NaN _ = NaN"
| "f64_div _ NaN = NaN"
| "f64_div (Fin a) (Fin b) =
     (if b = 0 then (if a = 0 then NaN else if 0 < a then PInf else NInf)
      else Fin (a / b))"
| "f64_div (Fin a) _ = Fin 0"
| "f64_div PInf (Fin b) = (if b < 0 then NInf else PInf)"
| "f64_div NInf (Fin b) = (if b < 0 then PInf else NInf)"
| "f64_div _ _ = NaN"

text \<open>\<open>x < y\<close>: false as soon as one side is NaN.\<close>

fun f64_less :: "float64 \<Rightarrow> float64 \<Rightarrow> bool" where
  "f64_less NaN _ = False"
| "f64_less _ NaN = False"
| "f64_less (Fin a) (Fin b) = (a < b)"
| "f64_less NInf NInf = False"
| "f64_less NInf _ = True"
| "f64_less _ NInf = False"
| "f64_less PInf _ = False"
| "f64_less _ PInf = True"

text \<open>\<open>x > y\<close>\<close>

definition f64_gt :: "float64 \<Rightarrow> float64 \<Rightarrow> bool" where
  "f64_gt x y = f64_less y x"

subsection \<open>The fitness methods of a chromosome\<close>

text \<open>As the example's \<open>Member\<close> implements them (part of the capability contract).\<close>

definition GetFitness :: "'v Member \<Rightarrow> float64" where
  "GetFitness m = Fitness m"

definition Normalize :: "float64 \<Rightarrow> 'v Member \<Rightarrow> 'v Member" where
  "Normalize total_fitness m = m\<lparr>Fitness := f64_div (Fitness m) total_fitness\<rparr>"

definition AccNormalize :: "float64 \<Rightarrow> 'v Member \<Rightarrow> 'v Member" where
  "AccNormalize accumulation m = m\<lparr>Fitness := accumulation\<rparr>"

definition IsGoodEnough :: "'v Member \<Rightarrow> bool" where
  "IsGoodEnough m = f64_gt (Fitness m) (Fin 7)"

section \<open>The best chromosome\<close>

text \<open>
  One step of the scan of \<open>getBestChromosome\<close>: the individual replaces the running
  best when its fitness is greater, or when the running best's fitness is NaN.
\<close>

definition betterOf :: "'v store \<Rightarrow> addr \<Rightarrow> addr \<Rightarrow> addr" where
  "betterOf h individual best =
     (if f64_gt (GetFitness (h individual)) (GetFitness (h best)) \<or> isNaN (GetFitness (h best))
      then individual else best)"

text \<open>
  \<open>best := population[0]\<close> panics on an empty slice; the range loop then visits every
  member, the first one included.
\<close>

definition getBestChromosome :: "'v store \<Rightarrow> addr list \<Rightarrow> error + addr" where
  "getBestChromosome h population =
     (case population of
        [] \<Rightarrow> Inl IndexOutOfRange
      | first # _ \<Rightarrow> Inr (fold (betterOf h) population first))"

definition isGoodEnough :: "'v store \<Rightarrow> addr list \<Rightarrow> error + bool" where
  "isGoodEnough h population =
     (case getBestChromosome h population of
        Inl e \<Rightarrow> Inl e
      | Inr best \<Rightarrow> Inr (IsGoodEnough (h best)))"

section \<open>Selection\<close>

text \<open>
  The state the engine works in: the store of chromosome objects, the next address an
  allocation returns, and the state of the global random source of \<open>math/rand\<close>.
\<close>

record ('v, 'w) world =
  heap :: "'v store"
  fresh :: addr
  rng :: 'w

text \<open>
  \<open>sort.Sort\<close> belongs to Go's library, not to the repository: it is a parameter. It
  receives the \<open>Less\<close> of \<open>Population\<close> and the slice, and returns the slice as it
  stands afterwards. The library promises a rearrangement of the slice (\<open>permutes\<close>),
  in ascending order of \<open>Less\<close> when \<open>Less\<close> is a strict weak ordering of the
  elements (\<open>sorts\<close>); the sort is not stable.
\<close>

type_synonym sorter = "(addr \<Rightarrow> addr \<Rightarrow> bool) \<Rightarrow> addr list \<Rightarrow> addr list"

definition permutes :: "sorter \<Rightarrow> bool" where
  "permutes Sort = (\<forall>lt xs. mset (Sort lt xs) = mset xs)"

definition weak_order_on :: "addr set \<Rightarrow> (addr \<Rightarrow> addr \<Rightarrow> bool) \<Rightarrow> bool" where
  "weak_order_on A lt =
     ((\<forall>a\<in>A. \<forall>b\<in>A. lt a b \<longrightarrow> \<not> lt b a)
      \<and> (\<forall>a\<in>A. \<forall>b\<in>A. \<forall>c\<in>A. \<not> lt a b \<and> \<not> lt b c \<longrightarrow> \<not> lt a c))"

definition sorts :: "sorter \<Rightarrow> bool" where
  "sorts Sort =
     (\<forall>lt xs. mset (Sort lt xs) = mset xs
        \<and> (weak_order_on (set xs) lt \<longrightarrow> sorted_wrt (\<lambda>a b. \<not> lt b a) (Sort lt xs)))"

text \<open>
  Straight insertion, the algorithm \<open>sort.Sort\<close> runs on a short slice: element \<open>x\<close>
  is swapped towards the front while \<open>Less\<close> holds between it and its left neighbour.
  \<open>sink\<close> works on the sorted prefix in reverse, its last element first.
\<close>

fun sink :: "(addr \<Rightarrow> addr \<Rightarrow> bool) \<Rightarrow> addr \<Rightarrow> addr list \<Rightarrow> addr list" where
  "sink lt x [] = [x]"
| "sink lt x (y # ys) = (if lt x y then y # sink lt x ys else x # y # ys)"

definition insertionSort :: sorter where
  "insertionSort lt xs = rev (fold (sink lt) xs [])"

text \<open>\<open>Population.Less\<close>, on the elements rather than on their indices.\<close>

definition Less :: "'v store \<Rightarrow> addr \<Rightarrow> addr \<Rightarrow> bool" where
  "Less h a b = f64_less (GetFitness (h a)) (GetFitness (h b))"

text \<open>Step 1 of \<open>selectParent\<close>: the sum of the fitness values, then \<open>Normalize\<close> on every element.\<close>

definition sumFitness :: "'v store \<Rightarrow> addr list \<Rightarrow> float64" where
  "sumFitness h population =
     fold (\<lambda>chromosome sum. f64_add sum (GetFitness (h chromosome))) population (Fin 0)"

definition normalizeAll :: "float64 \<Rightarrow> addr list \<Rightarrow> 'v store \<Rightarrow> 'v store" where
  "normalizeAll total_fitness population h =
     fold (\<lambda>chromosome h'. h'(chromosome := Normalize total_fitness (h' chromosome))) population h"

text \<open>
  Step 2: \<open>sort.Sort(Population(population))\<close> sorts the slice in place. The next
  statement, \<open>sort.Reverse(Population(population))\<close>, only builds a wrapper value with
  the opposite \<open>Less\<close> and drops it: the slice is not touched. The result is the slice
  and the store as the accumulation pass finds them.
\<close>

definition sortNormalized :: "sorter \<Rightarrow> addr list \<Rightarrow> 'v store \<Rightarrow> addr list \<times> 'v store" where
  "sortNormalized Sort population h =
     (let sum = sumFitness h population;
          h1 = normalizeAll sum population h
      in (Sort (Less h1) population, h1))"

text \<open>Step 3: the running total, written into every element in slice order.\<close>

fun accumulate :: "float64 \<Rightarrow> addr list \<Rightarrow> 'v store \<Rightarrow> 'v store" where
  "accumulate accumulation [] h = h"
| "accumulate accumulation (chromosome # rest) h =
     (let accumulation' = f64_add accumulation (GetFitness (h chromosome))
      in accumulate accumulation' rest (h(chromosome := AccNormalize accumulation' (h chromosome))))"

definition prepareWheel :: "sorter \<Rightarrow> addr list \<Rightarrow> 'v store \<Rightarrow> addr list \<times> 'v store" where
  "prepareWheel Sort population h =
     (case sortNormalized Sort population h of
        (ordered, h1) \<Rightarrow> (ordered, accumulate (Fin 0) ordered h1))"

text \<open>
  Step 5: the first element whose accumulated value is greater than \<open>r\<close>, and the
  slice without it (\<open>append(population[:i], population[i+1:]...)\<close>).
\<close>

fun firstAbove :: "'v store \<Rightarrow> float64 \<Rightarrow> addr list \<Rightarrow> addr list \<Rightarrow> (addr \<times> addr list) option" where
  "firstAbove h r skipped [] = None"
| "firstAbove h r skipped (chromosome # rest) =
     (if f64_gt (GetFitness (h chromosome)) r then Some (chromosome, skipped @ rest)
      else firstAbove h r (skipped @ [chromosome]) rest)"

text \<open>
  \<open>selectParent\<close>, with \<open>rand.Float64\<close> as the parameter \<open>Float64\<close> on the state of
  the random source. When no element is above \<open>r\<close> the last element is taken, which
  panics on an empty slice.
\<close>

definition selectParent ::
  "sorter \<Rightarrow> ('w \<Rightarrow> real \<times> 'w) \<Rightarrow> addr list \<Rightarrow> ('v, 'w) world
    \<Rightarrow> error + (addr \<times> addr list \<times> ('v, 'w) world)" where
  "selectParent Sort Float64 population s =
     (case prepareWheel Sort population (heap s) of
        (ordered, h2) \<Rightarrow>
          (case Float64 (rng s) of
             (r, w) \<Rightarrow>
               (let s' = s\<lparr>heap := h2, rng := w\<rparr> in
                case firstAbove h2 (Fin r) [] ordered of
                  Some (chromosome, rest) \<Rightarrow> Inr (chromosome, rest, s')
                | None \<Rightarrow>
                    (if ordered = [] then Inl IndexOutOfRange
                     else Inr (last ordered, butlast ordered, s')))))"

text \<open>The loop of \<open>Selection\<close>: \<open>for len(parents) < parentsCount\<close>.\<close>

function Selection_loop ::
  "sorter \<Rightarrow> ('w \<Rightarrow> real \<times> 'w) \<Rightarrow> nat \<Rightarrow> addr list \<Rightarrow> addr list \<Rightarrow> ('v, 'w) world
    \<Rightarrow> error + (addr list \<times> ('v, 'w) world)" where
  "Selection_loop Sort Float64 parentsCount parents population s =
     (if length parents < parentsCount then
        (case selectParent Sort Float64 population s of
           Inl e \<Rightarrow> Inl e
         | Inr (parent, restOfPopulation, s') \<Rightarrow>
             Selection_loop Sort Float64 parentsCount (parents @ [parent]) restOfPopulation s')
      else Inr (parents, s))"
  by pat_completeness auto
termination
  by (relation "measure (\<lambda>(Sort, Float64, parentsCount, parents, population, s).
        parentsCount - length parents)") auto

definition Selection ::
  "sorter \<Rightarrow> ('w \<Rightarrow> real \<times> 'w) \<Rightarrow> addr list \<Rightarrow> ('v, 'w) world
    \<Rightarrow> error + (addr list \<times> ('v, 'w) world)" where
  "Selection Sort Float64 population s =
     Selection_loop Sort Float64 (length population div 2) [] population s"

section \<open>Crossover, mutation and learning\<close>

text \<open>
  The engine knows a chromosome through the \<open>Chromosome\<close> interface only. The methods
  that work on the fitness field are modelled above; the others are parameters, as
  functions on the value a chromosome carries and on the state of the random source:
  \<open>CalculateFitness\<close> computes the fitness from the chromosome's own value and the
  target's, \<open>Mutate\<close> and \<open>Learn\<close> replace the value, and \<open>Breed\<close> makes the values
  of two children, which are allocated as new objects with the zero fitness.
  With them come the other things the engine takes from outside: \<open>sort.Sort\<close>,
  \<open>rand.Float64\<close>, the state \<open>rand.Seed\<close> leaves the random source in, and the order
  in which the scheduler lets the goroutines of \<open>Crossover\<close> deliver.
\<close>

record ('v, 'w) env =
  env_CalculateFitness :: "'v \<Rightarrow> 'v \<Rightarrow> float64"
  env_Mutate :: "'v \<Rightarrow> 'w \<Rightarrow> 'v \<times> 'w"
  env_Learn :: "'v \<Rightarrow> 'w \<Rightarrow> 'v \<times> 'w"
  env_Breed :: "'v \<Rightarrow> 'v \<Rightarrow> 'w \<Rightarrow> ('v \<times> 'v) \<times> 'w"
  env_Sort :: sorter
  env_Float64 :: "'w \<Rightarrow> real \<times> 'w"
  env_Seed :: 'w
  env_schedule :: "nat \<Rightarrow> nat"

text \<open>\<open>chromosome.CalculateFitness(g.target)\<close>\<close>

definition CalculateFitness :: "('v \<Rightarrow> 'v \<Rightarrow> float64) \<Rightarrow> addr \<Rightarrow> addr \<Rightarrow> 'v store \<Rightarrow> 'v store" where
  "CalculateFitness calc tgt c h = h(c := (h c)\<lparr>Fitness := calc (Value (h c)) (Value (h tgt))\<rparr>)"

text \<open>
  \<open>calculatePopulationFitness\<close>, \<open>Mutation\<close> and \<open>Learn\<close> start one goroutine per
  element and wait for all of them; each goroutine works on its own element. The
  goroutines are run here in index order.
\<close>

definition calculatePopulationFitness ::
  "('v \<Rightarrow> 'v \<Rightarrow> float64) \<Rightarrow> addr \<Rightarrow> addr list \<Rightarrow> 'v store \<Rightarrow> 'v store" where
  "calculatePopulationFitness calc tgt population h = fold (CalculateFitness calc tgt) population h"

definition vary ::
  "('v \<Rightarrow> 'w \<Rightarrow> 'v \<times> 'w) \<Rightarrow> ('v \<Rightarrow> 'v \<Rightarrow> float64) \<Rightarrow> addr \<Rightarrow> addr
    \<Rightarrow> ('v, 'w) world \<Rightarrow> ('v, 'w) world" where
  "vary change calc tgt c s =
     (case change (Value (heap s c)) (rng s) of
        (v, w) \<Rightarrow>
          s\<lparr>heap := CalculateFitness calc tgt c ((heap s)(c := (heap s c)\<lparr>Value := v\<rparr>)),
            rng := w\<rparr>)"

definition Mutation ::
  "('v, 'w) env \<Rightarrow> addr \<Rightarrow> addr list \<Rightarrow> ('v, 'w) world \<Rightarrow> ('v, 'w) world" where
  "Mutation e tgt generation s =
     fold (vary (env_Mutate e) (env_CalculateFitness e) tgt) generation s"

definition Learn ::
  "('v, 'w) env \<Rightarrow> addr \<Rightarrow> addr list \<Rightarrow> ('v, 'w) world \<Rightarrow> ('v, 'w) world" where
  "Learn e tgt generation s =
     fold (vary (env_Learn e) (env_CalculateFitness e) tgt) generation s"

text \<open>
  The order in which the goroutines started by \<open>Crossover\<close> deliver on the channel: at
  every step the scheduler picks one of those still pending.
\<close>

lemma arrival_pending:
  "pending \<noteq> [] \<Longrightarrow>
   length (take (m mod length pending) pending @ drop (Suc (m mod length pending)) pending)
     < length pending"
proof -
  assume "pending \<noteq> []"
  then have "m mod length pending < length pending" by simp
  then show ?thesis by simp
qed

function arrival :: "(nat \<Rightarrow> nat) \<Rightarrow> nat \<Rightarrow> nat list \<Rightarrow> nat list" where
  "arrival pick k pending =
     (if pending = [] then []
      else (let i = pick k mod length pending
            in pending ! i # arrival pick (Suc k) (take i pending @ drop (Suc i) pending)))"
  by pat_completeness auto
termination
  by (relation "measure (\<lambda>(pick, k, pending). length pending)")
    (simp_all only: wf_measure in_measure prod.case, erule arrival_pending)

text \<open>
  The goroutine started for index \<open>j\<close> runs \<open>parents[j].Breed(parents[j+1])\<close> and
  sends the two children.
\<close>

fun breedAll ::
  "('v \<Rightarrow> 'v \<Rightarrow> 'w \<Rightarrow> ('v \<times> 'v) \<times> 'w) \<Rightarrow> addr list \<Rightarrow> nat list \<Rightarrow> ('v, 'w) world
    \<Rightarrow> error + ((addr \<times> addr) list \<times> ('v, 'w) world)" where
  "breedAll breed parents [] s = Inr ([], s)"
| "breedAll breed parents (j # js) s =
     (if Suc j < length parents then
        (case breed (Value (heap s (parents ! j))) (Value (heap s (parents ! Suc j))) (rng s) of
           ((v1, v2), w) \<Rightarrow>
             (case breedAll breed parents js
                     (s\<lparr>heap := (heap s)
                          (fresh s := \<lparr>Fitness = Fin 0, Value = v1\<rparr>,
                           Suc (fresh s) := \<lparr>Fitness = Fin 0, Value = v2\<rparr>),
                        fresh := fresh s + 2, rng := w\<rparr>) of
                Inl e \<Rightarrow> Inl e
              | Inr (messages, s') \<Rightarrow> Inr ((fresh s, Suc (fresh s)) # messages, s')))
      else Inl IndexOutOfRange)"

text \<open>
  The consumer: \<open>for children := range c\<close>. It blocks for ever when nothing is left to
  arrive and the channel is still open; it closes the channel as soon as its count
  reaches \<open>length\<close>, and a goroutine that sends after that panics.
\<close>

fun collect ::
  "(addr \<Rightarrow> addr) \<Rightarrow> nat \<Rightarrow> (addr \<times> addr) list \<Rightarrow> nat \<Rightarrow> addr list \<Rightarrow> error + addr list" where
  "collect conv len [] cnt nextGeneration = Inl Deadlock"
| "collect conv len (children # messages) cnt nextGeneration =
     (if cnt + 2 \<ge> len then
        (if messages = [] then Inr (nextGeneration @ [conv (fst children), conv (snd children)])
         else Inl SendOnClosedChannel)
      else collect conv len messages (cnt + 2)
             (nextGeneration @ [conv (fst children), conv (snd children)]))"

definition Crossover ::
  "('v, 'w) env \<Rightarrow> (addr \<Rightarrow> addr) \<Rightarrow> addr list \<Rightarrow> ('v, 'w) world
    \<Rightarrow> error + (addr list \<times> ('v, 'w) world)" where
  "Crossover e conv parents0 s =
     (let parents = (if length parents0 mod 4 \<noteq> 0
                     then take (length parents0 - length parents0 mod 4) parents0
                     else parents0);
          len = length parents;
          started = map (\<lambda>k. 2 * k) [0..<(len + 1) div 2]
      in case breedAll (env_Breed e) parents (arrival (env_schedule e) 0 started) s of
           Inl err \<Rightarrow> Inl err
         | Inr (messages, s') \<Rightarrow>
             (case collect conv len messages 0 [] of
                Inl err \<Rightarrow> Inl err
              | Inr nextGeneration \<Rightarrow> Inr (nextGeneration, s')))"

section \<open>Run\<close>

record Goga =
  target :: "addr option"
  MaxIterations :: int
  Result :: "addr option"
  Status :: string
  Converter :: "addr \<Rightarrow> addr"

text \<open>\<open>%d\<close> of \<open>fmt.Sprintf\<close>\<close>

fun show_nat :: "nat \<Rightarrow> string" where
  "show_nat n = (if n < 10 then [''0123456789'' ! n]
                 else show_nat (n div 10) @ [''0123456789'' ! (n mod 10)])"

definition show_int :: "int \<Rightarrow> string" where
  "show_int i = (if i < 0 then ''-'' @ show_nat (nat (- i)) else show_nat (nat i))"

definition failed_status :: "int \<Rightarrow> string" where
  "failed_status n = ''Failed to converge after '' @ show_int n @ '' iterations.''"

definition took_status :: "int \<Rightarrow> string" where
  "took_status i = ''Took '' @ show_int i @ '' generations.''"

text \<open>
  The body of the loop of \<open>Run\<close> up to the variation stage: the parents selected from
  the population, the children after \<open>Mutation\<close> and \<open>Learn\<close>, and the state.
\<close>

definition generation ::
  "('v, 'w) env \<Rightarrow> (addr \<Rightarrow> addr) \<Rightarrow> addr \<Rightarrow> addr list \<Rightarrow> ('v, 'w) world
    \<Rightarrow> error + (addr list \<times> addr list \<times> ('v, 'w) world)" where
  "generation e conv tgt population s =
     (case Selection (env_Sort e) (env_Float64 e) population s of
        Inl err \<Rightarrow> Inl err
      | Inr (parents, s1) \<Rightarrow>
          (let s2 = s1\<lparr>heap := calculatePopulationFitness (env_CalculateFitness e) tgt parents (heap s1)\<rparr>
           in case Crossover e conv parents s2 of
                Inl err \<Rightarrow> Inl err
              | Inr (nextGeneration, s3) \<Rightarrow>
                  Inr (parents, nextGeneration,
                       Learn e tgt nextGeneration (Mutation e tgt nextGeneration s3))))"

text \<open>
  The loop \<open>for i := 0; i < g.MaxIterations; i++\<close>, from the value \<open>i\<close> on. The
  result is the engine, the population and the state when \<open>Run\<close> returns.
\<close>

function Run_loop ::
  "('v, 'w) env \<Rightarrow> Goga \<Rightarrow> addr \<Rightarrow> int \<Rightarrow> addr list \<Rightarrow> ('v, 'w) world
    \<Rightarrow> error + (Goga \<times> addr list \<times> ('v, 'w) world)" where
  "Run_loop e g tgt i population s =
     (if i < MaxIterations g then
        (case generation e (Converter g) tgt population s of
           Inl err \<Rightarrow> Inl err
         | Inr (parents, nextGeneration, s') \<Rightarrow>
             (case getBestChromosome (heap s') nextGeneration of
                Inl err \<Rightarrow> Inl err
              | Inr best \<Rightarrow>
                  (case isGoodEnough (heap s') nextGeneration of
                     Inl err \<Rightarrow> Inl err
                   | Inr good \<Rightarrow>
                       (if good
                        then Inr (g\<lparr>Result := Some best, Status := took_status i\<rparr>,
                                  parents @ nextGeneration, s')
                        else Run_loop e (g\<lparr>Result := Some best\<rparr>) tgt (i + 1)
                               (parents @ nextGeneration) s'))))
      else Inr (g, population, s))"
  by pat_completeness auto
termination
  by (relation "measure (\<lambda>(e, g, tgt, i, population, s). nat (MaxIterations g - i))") auto

text \<open>
  \<open>Run\<close>: the target is stored, the random source seeded, the fitness of the initial
  population computed and the status preset to the failure message; then the loop.
\<close>

definition Run ::
  "('v, 'w) env \<Rightarrow> Goga \<Rightarrow> addr \<Rightarrow> addr list \<Rightarrow> ('v, 'w) world
    \<Rightarrow> error + (Goga \<times> addr list \<times> ('v, 'w) world)" where
  "Run e g tgt population s =
     Run_loop e
       (g\<lparr>target := Some tgt, Status := failed_status (MaxIterations g)\<rparr>)
       tgt 0 population
       (s\<lparr>rng := env_Seed e,
          heap := calculatePopulationFitness (env_CalculateFitness e) tgt population (heap s)\<rparr>)"

section \<open>A sample environment\<close>

text \<open>
  Concrete parameters on which the theorems below are instantiated: chromosomes that
  carry a number, which is also their fitness; breeding hands the parents' values on,
  mutation adds one, learning changes nothing; the random source is a counter whose
  draws are all \<open>1/2\<close>; the goroutines deliver in the order they were started; the
  sort is straight insertion. In \<open>sample_world\<close> the chromosome at address \<open>a\<close>
  carries \<open>a\<close>, in \<open>sample_threes\<close> every chromosome carries 3.
\<close>

abbreviation sample_env :: "(nat, nat) env" where
  "sample_env \<equiv>
     \<lparr>env_CalculateFitness = (\<lambda>v t. Fin (real v)),
      env_Mutate = (\<lambda>v w. (Suc v, Suc w)),
      env_Learn = (\<lambda>v w. (v, w)),
      env_Breed = (\<lambda>mom dad w. ((mom, dad), Suc w)),
      env_Sort = insertionSort,
      env_Float64 = (\<lambda>w. (1 / 2, Suc w)),
      env_Seed = 0,
      env_schedule = (\<lambda>k. 0)\<rparr>"

abbreviation sample_world :: "(nat, nat) world" where
  "sample_world \<equiv> \<lparr>heap = (\<lambda>a. \<lparr>Fitness = Fin 0, Value = a\<rparr>), fresh = 100, rng = 0\<rparr>"


abbreviation sample_Goga :: "int \<Rightarrow> Goga" where
  "sample_Goga n \<equiv>
     \<lparr>target = None, MaxIterations = n, Result = None, Status = [], Converter = (\<lambda>a. a)\<rparr>"

text \<open>
  For the statements about numbers: the real number a finite \<open>float64\<close> stands for,
  and the populations whose members all have a finite fitness.
\<close>

fun real_of_f64 :: "float64 \<Rightarrow> real" where
  "real_of_f64 (Fin x) = x"
| "real_of_f64 _ = 0"

definition finite_on :: "'v store \<Rightarrow> addr list \<Rightarrow> bool" where
  "finite_on h xs = (\<forall>c\<in>set xs. \<exists>x. GetFitness (h c) = Fin x)"

text \<open>
  For the statements about the best chromosome: \<open>best\<close> leads the chromosomes
  scanned so far when none of them has a greater fitness, and when they all have a NaN
  fitness if \<open>best\<close> has one.
\<close>

definition leads :: "'v store \<Rightarrow> addr \<Rightarrow> addr set \<Rightarrow> bool" where
  "leads h best scanned =
     ((\<forall>c\<in>scanned. \<not> f64_gt (GetFitness (h c)) (GetFitness (h best)))
      \<and> (isNaN (GetFitness (h best)) \<longrightarrow> (\<forall>c\<in>scanned. isNaN (GetFitness (h c)))))"

section \<open>Properties of the best chromosome\<close>

lemma betterOf_cases: "betterOf h i b = i \<or> betterOf h i b = b"
  by (simp add: betterOf_def)

lemma f64_less_NaN_right [simp]: "f64_less x NaN = False"
  by (cases x) simp_all

lemma betterOf_keeps_number:
  "\<not> isNaN (GetFitness (h b)) \<Longrightarrow> \<not> isNaN (GetFitness (h (betterOf h i b)))"
  by (cases "GetFitness (h i)") (auto simp: betterOf_def f64_gt_def)

lemma betterOf_leaves_NaN: "isNaN (GetFitness (h b)) \<Longrightarrow> betterOf h i b = i"
  by (simp add: betterOf_def)

lemma fold_betterOf_mem: "fold (betterOf h) xs b \<in> insert b (set xs)"
proof (induction xs arbitrary: b)
  case Nil
  show ?case by simp
next
  case (Cons x xs)
  have "fold (betterOf h) xs (betterOf h x b) \<in> insert (betterOf h x b) (set xs)"
    by (rule Cons.IH)
  moreover have "betterOf h x b = x \<or> betterOf h x b = b"
    by (rule betterOf_cases)
  ultimately show ?case by auto
qed

lemma fold_betterOf_keeps_number:
  "\<not> isNaN (GetFitness (h b)) \<Longrightarrow> \<not> isNaN (GetFitness (h (fold (betterOf h) xs b)))"
  by (induction xs arbitrary: b) (simp_all add: betterOf_keeps_number)

lemma fold_betterOf_number:
  assumes "c \<in> set xs" and "\<not> isNaN (GetFitness (h c))"
  shows "\<not> isNaN (GetFitness (h (fold (betterOf h) xs b)))"
  using assms
proof (induction xs arbitrary: b)
  case Nil
  then show ?case by simp
next
  case (Cons x xs)
  show ?case
  proof (cases "isNaN (GetFitness (h (betterOf h x b)))")
    case False
    then show ?thesis by (simp add: fold_betterOf_keeps_number)
  next
    case True
    have bn: "isNaN (GetFitness (h b))"
      using True betterOf_keeps_number by blast
    then have "betterOf h x b = x" by (rule betterOf_leaves_NaN)
    with True Cons.prems have "c \<in> set xs" by auto
    then show ?thesis using Cons.IH Cons.prems(2) by simp
  qed
qed

text \<open>
  C8. When some member of the population has a fitness that is not NaN,
  \<open>getBestChromosome\<close> returns a chromosome whose fitness is not NaN: a running best
  with NaN fitness is replaced by the next member scanned, whatever it is, and a running
  best with a fitness that is not NaN is never replaced by a member with NaN fitness.
\<close>

theorem getBestChromosome_not_NaN:
  assumes "c \<in> set population" and "\<not> isNaN (GetFitness (h c))"
  shows "(\<exists>b. getBestChromosome h population = Inr b \<and> \<not> isNaN (GetFitness (h b)))
    \<and> (\<forall>i b. isNaN (GetFitness (h b)) \<longrightarrow> betterOf h i b = i)
    \<and> (\<forall>i b. \<not> isNaN (GetFitness (h b)) \<and> isNaN (GetFitness (h i)) \<longrightarrow> betterOf h i b = b)"
proof (intro conjI allI impI)
  from assms(1) obtain x xs where p: "population = x # xs"
    by (cases population) auto
  have "\<not> isNaN (GetFitness (h (fold (betterOf h) population x)))"
    using assms by (rule fold_betterOf_number)
  then show "\<exists>b. getBestChromosome h population = Inr b \<and> \<not> isNaN (GetFitness (h b))"
    by (simp add: getBestChromosome_def p)
next
  fix i b
  assume "isNaN (GetFitness (h b))"
  then show "betterOf h i b = i" by (rule betterOf_leaves_NaN)
next
  fix i b
  assume "\<not> isNaN (GetFitness (h b)) \<and> isNaN (GetFitness (h i))"
  then show "betterOf h i b = b"
    by (cases "GetFitness (h i)") (auto simp: betterOf_def f64_gt_def)
qed

theorem getBestChromosome_not_NaN_witness:
  "getBestChromosome (\<lambda>a. \<lparr>Fitness = (if a = 1 then Fin 2 else NaN), Value = ()\<rparr>) [0, 1, 2] = Inr 1"
  using getBestChromosome_not_NaN
    [of 1 "[0, 1, 2]" "\<lambda>a. \<lparr>Fitness = (if a = 1 then Fin 2 else NaN), Value = ()\<rparr>"]
  by (simp add: getBestChromosome_def betterOf_def GetFitness_def f64_gt_def)

section \<open>Properties of the sort\<close>


lemma mset_sink: "mset (sink lt x ys) = add_mset x (mset ys)"
  by (induction ys) auto

lemma set_sink: "set (sink lt x ys) = insert x (set ys)"
  by (induction ys) auto

lemma mset_fold_sink: "mset (fold (sink lt) xs acc) = mset xs + mset acc"
  by (induction xs arbitrary: acc) (auto simp: mset_sink)

lemma insertionSort_permutes: "permutes insertionSort"
  by (simp add: permutes_def insertionSort_def mset_fold_sink)

lemma weak_order_on_asym:
  assumes "weak_order_on A lt" and "a \<in> A" and "b \<in> A" and "lt a b"
  shows "\<not> lt b a"
proof -
  from assms(1) have "\<forall>a\<in>A. \<forall>b\<in>A. lt a b \<longrightarrow> \<not> lt b a"
    unfolding weak_order_on_def by (rule conjunct1)
  then show ?thesis
    using assms(2,3,4) by blast
qed

lemma weak_order_on_ntrans:
  assumes "weak_order_on A lt" and "a \<in> A" and "b \<in> A" and "c \<in> A"
    and "\<not> lt a b" and "\<not> lt b c"
  shows "\<not> lt a c"
proof -
  from assms(1) have "\<forall>a\<in>A. \<forall>b\<in>A. \<forall>c\<in>A. \<not> lt a b \<and> \<not> lt b c \<longrightarrow> \<not> lt a c"
    unfolding weak_order_on_def by (rule conjunct2)
  then show ?thesis
    using assms(2-) by blast
qed

lemma sink_sorted:
  assumes wo: "weak_order_on A lt" and x: "x \<in> A"
  shows "set ys \<subseteq> A \<Longrightarrow> sorted_wrt (\<lambda>a b. \<not> lt a b) ys
    \<Longrightarrow> sorted_wrt (\<lambda>a b. \<not> lt a b) (sink lt x ys)"
proof (induction ys)
  case Nil
  show ?case by simp
next
  case (Cons y ys)
  from Cons.prems have yA: "y \<in> A" and ysA: "set ys \<subseteq> A"
    and ys: "sorted_wrt (\<lambda>a b. \<not> lt a b) ys" and yz: "\<forall>z\<in>set ys. \<not> lt y z"
    by simp_all
  show ?case
  proof (cases "lt x y")
    case True
    have "\<not> lt y x" using wo x yA True by (rule weak_order_on_asym)
    moreover have "sorted_wrt (\<lambda>a b. \<not> lt a b) (sink lt x ys)"
      using ysA ys by (rule Cons.IH)
    ultimately show ?thesis using True yz by (simp add: set_sink)
  next
    case False
    have "\<forall>z\<in>set ys. \<not> lt x z"
    proof
      fix z assume z: "z \<in> set ys"
      then have zA: "z \<in> A" using ysA by auto
      have "\<not> lt y z" using yz z by simp
      with wo x yA zA False show "\<not> lt x z" by (rule weak_order_on_ntrans)
    qed
    then show ?thesis using False yz ys by simp
  qed
qed

lemma fold_sink_sorted:
  assumes wo: "weak_order_on A lt"
  shows "set xs \<subseteq> A \<Longrightarrow> set acc \<subseteq> A \<Longrightarrow> sorted_wrt (\<lambda>a b. \<not> lt a b) acc
    \<Longrightarrow> sorted_wrt (\<lambda>a b. \<not> lt a b) (fold (sink lt) xs acc)"
proof (induction xs arbitrary: acc)
  case Nil
  then show ?case by simp
next
  case (Cons x xs)
  have "sorted_wrt (\<lambda>a b. \<not> lt a b) (sink lt x acc)"
    using sink_sorted [OF wo, of x acc] Cons.prems by simp
  moreover have "set (sink lt x acc) \<subseteq> A" using Cons.prems by (simp add: set_sink)
  ultimately show ?case using Cons.IH [of "sink lt x acc"] Cons.prems by simp
qed

lemma insertionSort_sorts: "sorts insertionSort"
  unfolding sorts_def
proof (intro allI conjI impI)
  fix lt xs
  show "mset (insertionSort lt xs) = mset xs"
    by (simp add: insertionSort_def mset_fold_sink)
  assume "weak_order_on (set xs) lt"
  then have "sorted_wrt (\<lambda>a b. \<not> lt a b) (fold (sink lt) xs [])"
    by (rule fold_sink_sorted) simp_all
  then show "sorted_wrt (\<lambda>a b. \<not> lt b a) (insertionSort lt xs)"
    by (simp add: insertionSort_def sorted_wrt_rev)
qed


section \<open>Properties of Selection\<close>


declare Selection_loop.simps [simp del]

lemma firstAbove_Some:
  "firstAbove h r skipped xs = Some (c, rest) \<Longrightarrow> add_mset c (mset rest) = mset skipped + mset xs"
  by (induction xs arbitrary: skipped) (auto split: if_splits)

lemma prepareWheel_mset:
  "permutes Sort \<Longrightarrow> prepareWheel Sort population h = (ordered, h2) \<Longrightarrow> mset ordered = mset population"
  by (auto simp: prepareWheel_def sortNormalized_def permutes_def Let_def)

lemma selectParent_returns:
  assumes "permutes Sort" and "population \<noteq> []"
  shows "\<exists>c rest s'. selectParent Sort Float64 population s = Inr (c, rest, s')
     \<and> add_mset c (mset rest) = mset population
     \<and> rng s' = snd (Float64 (rng s))"
proof -
  obtain ordered h2 where pw: "prepareWheel Sort population (heap s) = (ordered, h2)"
    by (cases "prepareWheel Sort population (heap s)")
  obtain r w where f: "Float64 (rng s) = (r, w)"
    by (cases "Float64 (rng s)")
  have m: "mset ordered = mset population"
    using assms(1) pw by (rule prepareWheel_mset)
  with assms(2) have ne: "ordered \<noteq> []" by auto
  show ?thesis
  proof (cases "firstAbove h2 (Fin r) [] ordered")
    case None
    have "add_mset (last ordered) (mset (butlast ordered)) = mset ordered"
      using ne by (metis append_butlast_last_id mset.simps(2) mset_append add_mset_add_single mset.simps(1) union_mset_add_mset_right add.right_neutral)
    then show ?thesis
      using None ne m by (simp add: selectParent_def pw f)
  next
    case (Some a)
    obtain c rest where a: "a = (c, rest)" by (cases a)
    have "add_mset c (mset rest) = mset ordered"
      using firstAbove_Some [of h2 "Fin r" "[]" ordered c rest] Some a by simp
    then show ?thesis
      using Some a m by (simp add: selectParent_def pw f)
  qed
qed

lemma Selection_loop_returns:
  assumes "permutes Sort"
  shows "k = parentsCount - length parents \<Longrightarrow> k \<le> length population \<Longrightarrow>
    \<exists>ps s' rest. Selection_loop Sort Float64 parentsCount parents population s = Inr (ps, s')
      \<and> length ps = max parentsCount (length parents)
      \<and> mset ps + mset rest = mset parents + mset population
      \<and> rng s' = ((\<lambda>w. snd (Float64 w)) ^^ k) (rng s)"
proof (induction k arbitrary: parents population s)
  case 0
  then have "\<not> length parents < parentsCount" by simp
  then have "Selection_loop Sort Float64 parentsCount parents population s = Inr (parents, s)"
    by (subst Selection_loop.simps) simp
  moreover have "length parents = max parentsCount (length parents)" using 0 by simp
  ultimately show ?case by auto
next
  case (Suc k)
  then have lt: "length parents < parentsCount" and ne: "population \<noteq> []" by auto
  from selectParent_returns [OF assms ne, of Float64 s]
  obtain c rest s1 where sp: "selectParent Sort Float64 population s = Inr (c, rest, s1)"
    and ms: "add_mset c (mset rest) = mset population"
    and r1: "rng s1 = snd (Float64 (rng s))" by blast
  have "size (add_mset c (mset rest)) = size (mset population)" using ms by simp
  then have len: "Suc (length rest) = length population" by simp
  have k1: "k = parentsCount - length (parents @ [c])" using Suc.prems by simp
  have k2: "k \<le> length rest" using Suc.prems len by simp
  from Suc.IH [OF k1 k2, of s1]
  obtain ps s' rest' where
    sl: "Selection_loop Sort Float64 parentsCount (parents @ [c]) rest s1 = Inr (ps, s')"
    and l: "length ps = max parentsCount (length (parents @ [c]))"
    and m: "mset ps + mset rest' = mset (parents @ [c]) + mset rest"
    and r: "rng s' = ((\<lambda>w. snd (Float64 w)) ^^ k) (rng s1)" by blast
  have eq: "Selection_loop Sort Float64 parentsCount parents population s = Inr (ps, s')"
    using lt sp sl by (subst Selection_loop.simps) simp
  have l': "length ps = max parentsCount (length parents)" using l lt by simp
  have m': "mset ps + mset rest' = mset parents + mset population"
    using m ms [symmetric] by simp
  have r': "rng s' = ((\<lambda>w. snd (Float64 w)) ^^ Suc k) (rng s)"
    using r r1 by (simp del: funpow.simps add: funpow_Suc_right)
  show ?case using eq l' m' r' by blast
qed

lemma Selection_returns:
  assumes "permutes Sort"
  shows "\<exists>ps s' rest. Selection Sort Float64 population s = Inr (ps, s')
      \<and> length ps = length population div 2
      \<and> mset (ps @ rest) = mset population
      \<and> rng s' = ((\<lambda>w. snd (Float64 w)) ^^ (length population div 2)) (rng s)"
proof -
  have a: "length population div 2 = length population div 2 - length ([]::addr list)" by simp
  have b: "length population div 2 \<le> length population" by simp
  from Selection_loop_returns [OF assms a b, of Float64 s]
  show ?thesis by (simp add: Selection_def)
qed

text \<open>
  C1. For every population \<open>P\<close> of size \<open>N\<close>, \<open>Selection\<close> returns exactly
  \<open>N div 2\<close> parents; they are members of \<open>P\<close>, taken without replacement: as a
  multiset the parents are contained in \<open>P\<close>, so that no member of a population of
  distinct chromosomes is returned twice. (This holds whatever the fitness values are,
  in particular when their total is strictly positive.)
\<close>

theorem Selection_parents:
  assumes "permutes Sort"
  shows "\<exists>parents s'. Selection Sort Float64 population s = Inr (parents, s')
     \<and> length parents = length population div 2
     \<and> set parents \<subseteq> set population
     \<and> mset parents \<subseteq># mset population
     \<and> (distinct population \<longrightarrow> distinct parents)"
proof -
  from Selection_returns [OF assms, of Float64 population s]
  obtain ps s' rest where
    sl: "Selection Sort Float64 population s = Inr (ps, s')"
    and le: "length ps = length population div 2"
    and app: "mset (ps @ rest) = mset population"
    by blast
  have sub: "mset ps \<subseteq># mset population"
    unfolding app [symmetric] by simp
  have "set (ps @ rest) = set population"
    using app by (rule mset_eq_setD)
  then have st: "set ps \<subseteq> set population" by auto
  have "distinct (ps @ rest) = distinct population"
    using app by (rule mset_eq_imp_distinct_iff)
  then have di: "distinct population \<longrightarrow> distinct ps" by auto
  show ?thesis using sl le st sub di by blast
qed

theorem Selection_parents_witness:
  "permutes insertionSort
   \<and> (\<exists>parents s'.
        Selection insertionSort (\<lambda>w. (1 / 2, Suc w)) [3, 1, 0, 2]
          \<lparr>heap = (\<lambda>a. \<lparr>Fitness = Fin (real a + 1), Value = ()\<rparr>), fresh = 10, rng = 0\<rparr>
          = Inr (parents, s')
        \<and> length parents = 2 \<and> set parents \<subseteq> {0, 1, 2, 3} \<and> distinct parents)"
proof -
  from Selection_parents [OF insertionSort_permutes, of "\<lambda>w. (1 / 2, Suc w)" "[3, 1, 0, 2]"
      "\<lparr>heap = (\<lambda>a. \<lparr>Fitness = Fin (real a + 1), Value = ()\<rparr>), fresh = 10, rng = 0\<rparr>"]
  obtain parents s' where
    a: "Selection insertionSort (\<lambda>w. (1 / 2, Suc w)) [3, 1, 0, 2]
          \<lparr>heap = (\<lambda>a. \<lparr>Fitness = Fin (real a + 1), Value = ()\<rparr>), fresh = 10, rng = 0\<rparr>
          = Inr (parents, s')"
    and b: "length parents = length [3, 1, 0, 2::addr] div 2"
    and c: "set parents \<subseteq> set [3, 1, 0, 2::addr]"
    and d: "distinct [3, 1, 0, 2::addr] \<longrightarrow> distinct parents"
    by blast
  have "length parents = 2" using b by simp
  moreover have "set parents \<subseteq> {0, 1, 2, 3}" using c by auto
  moreover have "distinct parents" using d by simp
  ultimately show ?thesis using a insertionSort_permutes by blast
qed

text \<open>
  C10. \<open>Selection\<close> terminates on every population: a call of \<open>selectParent\<close> on a
  non-empty pool returns a pool exactly one element smaller (on both of its return
  paths), and the loop returns \<open>N div 2\<close> parents after exactly \<open>N div 2\<close> draws from
  the random source, without ever finding the pool empty.
\<close>

theorem Selection_terminates:
  assumes "permutes Sort"
  shows "(population \<noteq> [] \<longrightarrow>
           (\<exists>c rest s'. selectParent Sort Float64 population s = Inr (c, rest, s')
              \<and> Suc (length rest) = length population))
     \<and> (\<exists>parents s'. Selection Sort Float64 population s = Inr (parents, s')
           \<and> length parents = length population div 2
           \<and> rng s' = ((\<lambda>w. snd (Float64 w)) ^^ (length population div 2)) (rng s))"
proof (intro conjI impI)
  assume "population \<noteq> []"
  from selectParent_returns [OF assms this, of Float64 s]
  obtain c rest s' where sp: "selectParent Sort Float64 population s = Inr (c, rest, s')"
    and ms: "add_mset c (mset rest) = mset population" by blast
  have "size (add_mset c (mset rest)) = size (mset population)" using ms by simp
  then have "Suc (length rest) = length population" by simp
  with sp show "\<exists>c rest s'. selectParent Sort Float64 population s = Inr (c, rest, s')
      \<and> Suc (length rest) = length population" by blast
next
  from Selection_returns [OF assms, of Float64 population s]
  show "\<exists>parents s'. Selection Sort Float64 population s = Inr (parents, s')
      \<and> length parents = length population div 2
      \<and> rng s' = ((\<lambda>w. snd (Float64 w)) ^^ (length population div 2)) (rng s)"
    by blast
qed

theorem Selection_terminates_witness:
  "permutes insertionSort
   \<and> (\<exists>parents s'.
        Selection insertionSort (\<lambda>w. (1 / 2, Suc w)) [3, 1, 0, 2, 4]
          \<lparr>heap = (\<lambda>a. \<lparr>Fitness = Fin (real a + 1), Value = ()\<rparr>), fresh = 10, rng = 0\<rparr>
          = Inr (parents, s')
        \<and> length parents = 2 \<and> rng s' = 2)"
proof -
  from Selection_terminates [OF insertionSort_permutes, of "[3, 1, 0, 2, 4]"
      "\<lambda>w. (1 / 2, Suc w)"
      "\<lparr>heap = (\<lambda>a. \<lparr>Fitness = Fin (real a + 1), Value = ()\<rparr>), fresh = 10, rng = 0\<rparr>"]
  obtain parents and s' :: "(unit, nat) world" where
    a: "Selection insertionSort (\<lambda>w. (1 / 2, Suc w)) [3, 1, 0, 2, 4]
          \<lparr>heap = (\<lambda>a. \<lparr>Fitness = Fin (real a + 1), Value = ()\<rparr>), fresh = 10, rng = 0\<rparr>
          = Inr (parents, s')"
    and b: "length parents = length [3, 1, 0, 2, 4::addr] div 2"
    and c: "rng s' = ((\<lambda>w. snd (1 / 2 :: real, Suc w)) ^^ (length [3, 1, 0, 2, 4::addr] div 2))
          (rng \<lparr>heap = (\<lambda>a. \<lparr>Fitness = Fin (real a + 1), Value = ()\<rparr>), fresh = 10, rng = 0\<rparr>)"
    by blast
  have d: "length [3, 1, 0, 2, 4::addr] div 2 = Suc (Suc 0)" by simp
  have "length parents = 2" using b by simp
  moreover have "rng s' = 2" using c unfolding d by simp
  ultimately show ?thesis using a insertionSort_permutes by blast
qed

section \<open>Properties of normalization and sorting\<close>

lemma normalizeAll_other: "c \<notin> set xs \<Longrightarrow> normalizeAll t xs h c = h c"
  unfolding normalizeAll_def by (induction xs arbitrary: h) auto

lemma normalizeAll_member:
  "distinct xs \<Longrightarrow> c \<in> set xs \<Longrightarrow> normalizeAll t xs h c = Normalize t (h c)"
proof (induction xs arbitrary: h)
  case Nil
  then show ?case by simp
next
  case (Cons x xs)
  have step: "normalizeAll t (x # xs) h = normalizeAll t xs (h(x := Normalize t (h x)))"
    by (simp add: normalizeAll_def)
  show ?case
  proof (cases "c = x")
    case True
    then have "c \<notin> set xs" using Cons.prems by simp
    then show ?thesis unfolding step using True by (simp add: normalizeAll_other)
  next
    case False
    then have "c \<in> set xs" and "distinct xs" using Cons.prems by auto
    then show ?thesis unfolding step using Cons.IH False by simp
  qed
qed

lemma normalized_value:
  assumes "distinct xs" and "finite_on h xs" and "t \<noteq> 0" and "c \<in> set xs"
  shows "GetFitness (normalizeAll (Fin t) xs h c) = Fin (real_of_f64 (GetFitness (h c)) / t)"
proof -
  from assms(2,4) obtain v where v: "GetFitness (h c) = Fin v"
    by (auto simp: finite_on_def)
  have "normalizeAll (Fin t) xs h c = Normalize (Fin t) (h c)"
    using assms(1,4) by (rule normalizeAll_member)
  then show ?thesis
    using v assms(3) by (simp add: Normalize_def GetFitness_def)
qed

lemma normalized_finite_on:
  assumes "distinct xs" and "finite_on h xs" and "t \<noteq> 0"
  shows "finite_on (normalizeAll (Fin t) xs h) xs"
  unfolding finite_on_def
proof
  fix c assume "c \<in> set xs"
  with assms have "GetFitness (normalizeAll (Fin t) xs h c)
      = Fin (real_of_f64 (GetFitness (h c)) / t)"
    by (rule normalized_value)
  then show "\<exists>x. GetFitness (normalizeAll (Fin t) xs h c) = Fin x" by blast
qed

lemma Less_finite:
  assumes "finite_on h xs" and "a \<in> set xs" and "b \<in> set xs"
  shows "Less h a b = (real_of_f64 (GetFitness (h a)) < real_of_f64 (GetFitness (h b)))"
proof -
  from assms obtain x y where "GetFitness (h a) = Fin x" and "GetFitness (h b) = Fin y"
    unfolding finite_on_def by blast
  then show ?thesis by (simp add: Less_def)
qed

lemma Less_weak_order:
  assumes "finite_on h xs"
  shows "weak_order_on (set xs) (Less h)"
  unfolding weak_order_on_def
proof (intro conjI ballI impI)
  fix a b assume "a \<in> set xs" "b \<in> set xs" "Less h a b"
  then show "\<not> Less h b a"
    using Less_finite [OF assms, of a b] Less_finite [OF assms, of b a] by linarith
next
  fix a b c assume "a \<in> set xs" "b \<in> set xs" "c \<in> set xs" "\<not> Less h a b \<and> \<not> Less h b c"
  then show "\<not> Less h a c"
    using Less_finite [OF assms, of a b] Less_finite [OF assms, of b c]
      Less_finite [OF assms, of a c] by linarith
qed

lemma Sort_ascending:
  assumes "sorts Sort" and "finite_on h xs"
  shows "sorted (map (\<lambda>c. real_of_f64 (GetFitness (h c))) (Sort (Less h) xs))"
proof -
  let ?ys = "Sort (Less h) xs"
  have m: "mset ?ys = mset xs" using assms(1) by (simp add: sorts_def)
  then have st: "set ?ys = set xs" by (rule mset_eq_setD)
  have "weak_order_on (set xs) (Less h)" using assms(2) by (rule Less_weak_order)
  then have sw: "sorted_wrt (\<lambda>a b. \<not> Less h b a) ?ys"
    using assms(1) by (simp add: sorts_def)
  have "sorted_wrt (\<lambda>a b. real_of_f64 (GetFitness (h a)) \<le> real_of_f64 (GetFitness (h b))) ?ys"
  proof (rule sorted_wrt_mono_rel [OF _ sw])
    fix a b assume "a \<in> set ?ys" "b \<in> set ?ys" "\<not> Less h b a"
    then show "real_of_f64 (GetFitness (h a)) \<le> real_of_f64 (GetFitness (h b))"
      using Less_finite [OF assms(2), of b a] st by simp
  qed
  then show ?thesis by (simp only: sorted_map)
qed

lemma two_permuted:
  assumes "mset ys = mset [a, b::addr]"
  shows "ys = [a, b] \<or> ys = [b, a]"
proof -
  have "length ys = length [a, b]" using assms by (rule mset_eq_length)
  then obtain x y where ys: "ys = [x, y]"
    by (cases ys; cases "tl ys") auto
  with assms have "{#x, y#} = {#a, b#}" by simp
  then have "(x = a \<and> y = b) \<or> (x = b \<and> y = a)"
    by (auto simp: add_eq_conv_diff)
  with ys show ?thesis by auto
qed

text \<open>
  C2. When the accumulation pass begins, the slice is in ascending order of normalized
  fitness, not in descending order: on a population of two chromosomes with fitness 3
  and 1, handed over with the fitter one first, the member with the highest normalized
  fitness (3/4) stands at index 1 and the one with the lowest (1/4) at index 0.
\<close>

theorem sortNormalized_ascending:
  assumes "sorts Sort" and "GetFitness (h 0) = Fin 3" and "GetFitness (h 1) = Fin 1"
  shows "\<exists>h1. sortNormalized Sort [0, 1] h = ([1, 0], h1)
    \<and> GetFitness (h1 1) = Fin (1 / 4) \<and> GetFitness (h1 0) = Fin (3 / 4)"
proof -
  have fi: "finite_on h [0, 1]" using assms(2,3) by (simp add: finite_on_def)
  have sf: "sumFitness h [0, 1] = Fin 4" using assms(2,3) by (simp add: sumFitness_def)
  define h1 where "h1 = normalizeAll (Fin 4) [0, 1] h"
  have di: "distinct [0, 1::addr]" by simp
  have v0: "GetFitness (h1 0) = Fin (3 / 4)"
    using normalized_value [OF di fi, of 4 0] assms(2) by (simp add: h1_def)
  have v1: "GetFitness (h1 1) = Fin (1 / 4)"
    using normalized_value [OF di fi, of 4 1] assms(3) by (simp add: h1_def)
  have f1: "finite_on h1 [0, 1]"
    unfolding h1_def using di fi by (rule normalized_finite_on) simp
  have "mset (Sort (Less h1) [0, 1]) = mset [0, 1]"
    using assms(1) by (simp add: sorts_def)
  then have two: "Sort (Less h1) [0, 1] = [0, 1] \<or> Sort (Less h1) [0, 1] = [1, 0]"
    by (rule two_permuted)
  have r0: "real_of_f64 (GetFitness (h1 0)) = 3 / 4" by (simp only: v0 real_of_f64.simps)
  have r1: "real_of_f64 (GetFitness (h1 1)) = 1 / 4" by (simp only: v1 real_of_f64.simps)
  have asc: "sorted (map (\<lambda>c. real_of_f64 (GetFitness (h1 c))) (Sort (Less h1) [0, 1]))"
    using assms(1) f1 by (rule Sort_ascending)
  have "Sort (Less h1) [0, 1] \<noteq> [0, 1]"
  proof
    assume "Sort (Less h1) [0, 1] = [0, 1]"
    with asc have "real_of_f64 (GetFitness (h1 0)) \<le> real_of_f64 (GetFitness (h1 1))"
      by simp
    then have "(3 / 4 :: real) \<le> 1 / 4" by (simp only: r0 r1)
    then show False by simp
  qed
  with two have "Sort (Less h1) [0, 1] = [1, 0]" by blast
  then have e: "Sort (Less (normalizeAll (Fin 4) [0, 1] h)) [0, 1] = [1, 0]"
    by (simp only: h1_def)
  have "sortNormalized Sort [0, 1] h = ([1, 0], h1)"
    by (simp only: sortNormalized_def sf Let_def h1_def e)
  with v0 v1 show ?thesis by blast
qed

theorem sortNormalized_ascending_witness:
  "sorts insertionSort
   \<and> fst (sortNormalized insertionSort [0, 1]
        (\<lambda>a. \<lparr>Fitness = (if a = 0 then Fin 3 else Fin 1), Value = ()\<rparr>)) = [1, 0]"
  using sortNormalized_ascending [OF insertionSort_sorts,
      of "\<lambda>a. \<lparr>Fitness = (if a = 0 then Fin 3 else Fin 1), Value = ()\<rparr>"]
    insertionSort_sorts
  by (auto simp: GetFitness_def)

section \<open>Properties of Crossover\<close>

declare arrival.simps [simp del]

lemma arrival_mset: "mset (arrival pick k pending) = mset pending"
proof (induction pick k pending rule: arrival.induct)
  case (1 pick k pending)
  show ?case
  proof (cases "pending = []")
    case True
    then show ?thesis by (subst arrival.simps) simp
  next
    case False
    define i where "i = pick k mod length pending"
    have i: "i < length pending" unfolding i_def using False by simp
    have IH: "mset (arrival pick (Suc k) (take i pending @ drop (Suc i) pending))
        = mset (take i pending @ drop (Suc i) pending)"
      using "1.IH" [OF False i_def] .
    have "arrival pick k pending
        = pending ! i # arrival pick (Suc k) (take i pending @ drop (Suc i) pending)"
      using False by (subst arrival.simps) (simp add: Let_def i_def)
    then have "mset (arrival pick k pending)
        = add_mset (pending ! i) (mset (take i pending @ drop (Suc i) pending))"
      using IH by simp
    also have "\<dots> = mset (take i pending @ pending ! i # drop (Suc i) pending)" by simp
    also have "\<dots> = mset pending" using id_take_nth_drop [OF i] by simp
    finally show ?thesis .
  qed
qed

lemma breedAll_returns:
  "\<forall>j\<in>set js. Suc j < length parents \<Longrightarrow>
   \<exists>ms s'. breedAll breed parents js s = Inr (ms, s') \<and> length ms = length js"
proof (induction js arbitrary: s)
  case Nil
  show ?case by simp
next
  case (Cons j js)
  obtain v1 v2 w where b: "breed (Value (heap s (parents ! j))) (Value (heap s (parents ! Suc j))) (rng s)
      = ((v1, v2), w)"
    by (metis surj_pair)
  let ?s = "s\<lparr>heap := (heap s)
                          (fresh s := \<lparr>Fitness = Fin 0, Value = v1\<rparr>,
                           Suc (fresh s) := \<lparr>Fitness = Fin 0, Value = v2\<rparr>),
                        fresh := fresh s + 2, rng := w\<rparr>"
  from Cons.prems have "\<forall>j\<in>set js. Suc j < length parents" by simp
  from Cons.IH [OF this, of ?s]
  obtain ms s' where r: "breedAll breed parents js ?s = Inr (ms, s')" and l: "length ms = length js"
    by blast
  have "Suc j < length parents" using Cons.prems by simp
  then have "breedAll breed parents (j # js) s = Inr ((fresh s, Suc (fresh s)) # ms, s')"
    using b r by simp
  then show ?case using l by simp
qed

lemma collect_returns:
  "ms \<noteq> [] \<Longrightarrow> cnt + 2 * length ms = len \<Longrightarrow>
   \<exists>ng. collect conv len ms cnt acc = Inr ng \<and> length ng = length acc + 2 * length ms"
proof (induction ms arbitrary: cnt acc)
  case Nil
  then show ?case by simp
next
  case (Cons m ms)
  show ?case
  proof (cases "cnt + 2 \<ge> len")
    case True
    have "cnt + (2 + 2 * length ms) = len" using Cons.prems(2) by simp
    with True have "cnt + (2 + 2 * length ms) \<le> cnt + 2" by (simp only:)
    then have "length ms = 0" by (simp del: length_0_conv)
    then have "ms = []" by simp
    then show ?thesis using True by simp
  next
    case False
    then have ne: "ms \<noteq> []" using Cons.prems(2) by auto
    have c: "(cnt + 2) + 2 * length ms = len" using Cons.prems(2) by simp
    from Cons.IH [OF ne c, of "acc @ [conv (fst m), conv (snd m)]"]
    show ?thesis using False by simp
  qed
qed

lemma Crossover_deadlock:
  assumes "length parents < 4"
  shows "Crossover e conv parents s = Inl Deadlock"
proof -
  have a: "arrival (env_schedule e) 0 [] = []" by (subst arrival.simps) simp
  have "length parents mod 4 = length parents" using assms by simp
  then show ?thesis
    by (simp add: Crossover_def a)
qed

lemma Crossover_returns:
  assumes "4 \<le> length parents"
  shows "\<exists>children s'. Crossover e conv parents s = Inr (children, s')
      \<and> length children = 4 * (length parents div 4)"
proof -
  define n where "n = length parents"
  define ps where "ps = (if n mod 4 \<noteq> 0 then take (n - n mod 4) parents else parents)"
  have k: "n - n mod 4 = 4 * (n div 4)" by (rule minus_mod_eq_mult_div)
  have len: "length ps = 4 * (n div 4)"
  proof (cases "n mod 4 = 0")
    case True
    then have "ps = parents" by (simp add: ps_def)
    then show ?thesis using True k by (simp add: n_def)
  next
    case False
    then have "length ps = min n (n - n mod 4)" by (simp add: ps_def n_def)
    then show ?thesis using k by simp
  qed
  define started where "started = map (\<lambda>k. 2 * k) [0..<(length ps + 1) div 2]"
  define order where "order = arrival (env_schedule e) 0 started"
  have m: "mset order = mset started" unfolding order_def by (rule arrival_mset)
  have ls: "length started = 2 * (n div 4)"
    unfolding started_def len by simp
  have lo: "length order = 2 * (n div 4)"
    using mset_eq_length [OF m] ls by simp
  have "\<forall>j\<in>set started. Suc j < length ps"
    unfolding started_def len by auto
  moreover have "set order = set started" using m by (rule mset_eq_setD)
  ultimately have "\<forall>j\<in>set order. Suc j < length ps" by simp
  from breedAll_returns [OF this, of "env_Breed e" s]
  obtain ms s' where b: "breedAll (env_Breed e) ps order s = Inr (ms, s')"
    and lm: "length ms = length order" by blast
  have "n div 4 \<noteq> 0" using assms unfolding n_def by simp
  then have ne: "ms \<noteq> []" using lm lo by auto
  have c: "0 + 2 * length ms = length ps" using lm lo len by simp
  from collect_returns [OF ne c, of conv "[]"]
  obtain ng where r: "collect conv (length ps) ms 0 [] = Inr ng"
    and lng: "length ng = 2 * length ms" by auto
  have "Crossover e conv parents s = Inr (ng, s')"
    using b r unfolding Crossover_def Let_def ps_def n_def order_def started_def by simp
  moreover have "length ng = 4 * (length parents div 4)"
    using lng lm lo by (simp add: n_def)
  ultimately show ?thesis by blast
qed


text \<open>
  C3. \<open>Crossover\<close> on at least four parents returns exactly \<open>4 * (n div 4)\<close>
  children for \<open>n\<close> parents, whatever the order in which the goroutines deliver: the
  list is cut to the nearest lower multiple of four without an error (five parents give
  four children). On fewer than four parents, the empty list included, no goroutine is
  started, the channel is never closed and the consumer blocks for ever: \<open>Crossover\<close>
  does not return the empty collection.
\<close>

theorem Crossover_size:
  "(length parents < 4 \<longrightarrow> Crossover e conv parents s = Inl Deadlock)
   \<and> (4 \<le> length parents \<longrightarrow>
        (\<exists>children s'. Crossover e conv parents s = Inr (children, s')
           \<and> length children = 4 * (length parents div 4)))"
  using Crossover_deadlock [of parents e conv s] Crossover_returns [of parents e conv s]
  by blast

theorem Crossover_size_witness:
  "Crossover sample_env id [] sample_world = Inl Deadlock
   \<and> (\<exists>children s'. Crossover sample_env id [0, 1, 2, 3, 4] sample_world = Inr (children, s')
         \<and> length children = 4)"
proof -
  have "length ([]::addr list) < 4" by simp
  then have a: "Crossover sample_env id [] sample_world = Inl Deadlock"
    using Crossover_size [of "[]" sample_env id sample_world] by blast
  have "4 \<le> length [0, 1, 2, 3, 4::addr]" by simp
  then have "\<exists>children s'. Crossover sample_env id [0, 1, 2, 3, 4] sample_world = Inr (children, s')
      \<and> length children = 4 * (length [0, 1, 2, 3, 4::addr] div 4)"
    using Crossover_size [of "[0, 1, 2, 3, 4]" sample_env id sample_world] by blast
  then show ?thesis using a by simp
qed

section \<open>Properties of Run\<close>

declare Run_loop.simps [simp del]

lemma Selection_loop_length:
  "k = parentsCount - length parents \<Longrightarrow>
   Selection_loop Sort Float64 parentsCount parents population s = Inr (ps, s') \<Longrightarrow>
   length ps = max parentsCount (length parents)"
proof (induction k arbitrary: parents population s)
  case 0
  then have "\<not> length parents < parentsCount" by simp
  then have "Selection_loop Sort Float64 parentsCount parents population s = Inr (parents, s)"
    by (subst Selection_loop.simps) simp
  with "0.prems" show ?case by simp
next
  case (Suc k)
  then have lt: "length parents < parentsCount" by simp
  show ?case
  proof (cases "selectParent Sort Float64 population s")
    case (Inl err)
    then have "Selection_loop Sort Float64 parentsCount parents population s = Inl err"
      using lt by (subst Selection_loop.simps) simp
    with Suc.prems(2) show ?thesis by simp
  next
    case (Inr x)
    obtain c rest s1 where x: "x = (c, rest, s1)" by (cases x)
    have "Selection_loop Sort Float64 parentsCount parents population s
        = Selection_loop Sort Float64 parentsCount (parents @ [c]) rest s1"
      using lt Inr x by (subst Selection_loop.simps) simp
    with Suc.prems(2)
    have r: "Selection_loop Sort Float64 parentsCount (parents @ [c]) rest s1 = Inr (ps, s')"
      by simp
    have k: "k = parentsCount - length (parents @ [c])" using Suc.prems(1) by simp
    have "length ps = max parentsCount (length (parents @ [c]))"
      using k r by (rule Suc.IH)
    then show ?thesis using lt by simp
  qed
qed

lemma Selection_length:
  "Selection Sort Float64 population s = Inr (ps, s') \<Longrightarrow> length ps = length population div 2"
  using Selection_loop_length [of "length population div 2" "length population div 2" "[]"
      Sort Float64 population s ps s']
  by (simp add: Selection_def)

lemma Crossover_length:
  assumes "Crossover e conv parents s = Inr (children, s')"
  shows "length children = 4 * (length parents div 4) \<and> 4 \<le> length parents"
proof (cases "length parents < 4")
  case True
  then have "Crossover e conv parents s = Inl Deadlock" by (rule Crossover_deadlock)
  with assms show ?thesis by simp
next
  case False
  then have ge: "4 \<le> length parents" by simp
  from Crossover_returns [OF ge, of e conv s] assms
  show ?thesis using ge by auto
qed

lemma generation_sizes:
  assumes "generation e conv tgt population s = Inr (parents, children, s')"
  shows "length parents = length population div 2
     \<and> length children = 4 * (length parents div 4) \<and> children \<noteq> []"
proof -
  from assms obtain s1 s3 where
    sel: "Selection (env_Sort e) (env_Float64 e) population s = Inr (parents, s1)"
    and cro: "Crossover e conv parents
        (s1\<lparr>heap := calculatePopulationFitness (env_CalculateFitness e) tgt parents (heap s1)\<rparr>)
        = Inr (children, s3)"
    by (auto simp: generation_def Let_def split: sum.splits)
  have a: "length parents = length population div 2" using sel by (rule Selection_length)
  have b: "length children = 4 * (length parents div 4) \<and> 4 \<le> length parents"
    using cro by (rule Crossover_length)
  then have "0 < length parents div 4" by (simp add: div_greater_zero_iff)
  with b have "length children \<noteq> 0" by simp
  then have "children \<noteq> []" by simp
  with a b show ?thesis by simp
qed

lemma generation_returns:
  assumes "permutes (env_Sort e)" and "8 \<le> length population"
  shows "\<exists>parents children s'. generation e conv tgt population s = Inr (parents, children, s')"
proof -
  from Selection_returns [OF assms(1), of "env_Float64 e" population s]
  obtain parents s1 where
    sel: "Selection (env_Sort e) (env_Float64 e) population s = Inr (parents, s1)"
    and len: "length parents = length population div 2" by blast
  have "4 \<le> length parents" using len assms(2) by simp
  from Crossover_returns [OF this, of e conv
      "s1\<lparr>heap := calculatePopulationFitness (env_CalculateFitness e) tgt parents (heap s1)\<rparr>"]
  obtain children s3 where "Crossover e conv parents
        (s1\<lparr>heap := calculatePopulationFitness (env_CalculateFitness e) tgt parents (heap s1)\<rparr>)
        = Inr (children, s3)" by blast
  with sel show ?thesis by (simp add: generation_def Let_def)
qed

lemma generation_deadlock:
  assumes "permutes (env_Sort e)" and "length population < 8"
  shows "generation e conv tgt population s = Inl Deadlock"
proof -
  from Selection_returns [OF assms(1), of "env_Float64 e" population s]
  obtain parents s1 where
    sel: "Selection (env_Sort e) (env_Float64 e) population s = Inr (parents, s1)"
    and len: "length parents = length population div 2" by blast
  have "length parents < 4" using len assms(2) by simp
  then have "Crossover e conv parents
        (s1\<lparr>heap := calculatePopulationFitness (env_CalculateFitness e) tgt parents (heap s1)\<rparr>)
        = Inl Deadlock" by (rule Crossover_deadlock)
  with sel show ?thesis by (simp add: generation_def Let_def)
qed

lemma getBestChromosome_returns:
  "population \<noteq> [] \<Longrightarrow>
   \<exists>b. getBestChromosome h population = Inr b \<and> b \<in> set population
     \<and> isGoodEnough h population = Inr (IsGoodEnough (h b))"
proof -
  assume "population \<noteq> []"
  then obtain x xs where p: "population = x # xs"
    by (cases population) auto
  have "fold (betterOf h) population x \<in> insert x (set population)"
    by (rule fold_betterOf_mem)
  then have "fold (betterOf h) population x \<in> set population"
    by (simp add: p)
  then show ?thesis
    by (simp add: isGoodEnough_def getBestChromosome_def p)
qed


lemma Run_loop_step:
  assumes "i < MaxIterations g"
    and "generation e (Converter g) tgt population s = Inr (parents, children, s')"
  shows "\<exists>best. getBestChromosome (heap s') children = Inr best \<and> best \<in> set children
     \<and> Run_loop e g tgt i population s =
         (if IsGoodEnough (heap s' best)
          then Inr (g\<lparr>Result := Some best, Status := took_status i\<rparr>, parents @ children, s')
          else Run_loop e (g\<lparr>Result := Some best\<rparr>) tgt (i + 1) (parents @ children) s')"
proof -
  have "children \<noteq> []" using generation_sizes [OF assms(2)] by simp
  from getBestChromosome_returns [OF this, of "heap s'"]
  obtain b where b: "getBestChromosome (heap s') children = Inr b" and m: "b \<in> set children"
    and g: "isGoodEnough (heap s') children = Inr (IsGoodEnough (heap s' b))" by blast
  have "Run_loop e g tgt i population s =
         (if IsGoodEnough (heap s' b)
          then Inr (g\<lparr>Result := Some b, Status := took_status i\<rparr>, parents @ children, s')
          else Run_loop e (g\<lparr>Result := Some b\<rparr>) tgt (i + 1) (parents @ children) s')"
    using assms b g by (subst Run_loop.simps) simp
  with b m show ?thesis by blast
qed

declare show_nat.simps [simp del]



lemma generation_population_size:
  assumes "generation e conv tgt population s = Inr (parents, children, s')"
  shows "length (parents @ children) = length population div 2 + 4 * (length population div 2 div 4)"
    and "length (parents @ children) \<le> length population"
proof -
  from generation_sizes [OF assms]
  have a: "length parents = length population div 2"
    and b: "length children = 4 * (length parents div 4)" by simp_all
  show "length (parents @ children) = length population div 2 + 4 * (length population div 2 div 4)"
    using a b by simp
  have "4 * (length parents div 4) \<le> length parents" by simp
  then show "length (parents @ children) \<le> length population"
    using a b by simp
qed

text \<open>
  C4 as stated: the population size can grow from one generation to the next. It cannot:
  no generation hands a longer population to the next one.
\<close>

theorem population_never_grows:
  "\<not> (\<exists>(e::('v, 'w) env) conv tgt population (s::('v, 'w) world) parents children s'.
        generation e conv tgt population s = Inr (parents, children, s')
        \<and> length population < length (parents @ children))"
proof (intro notI, elim exE conjE)
  fix e :: "('v, 'w) env" and conv tgt population parents children
    and s s' :: "('v, 'w) world"
  assume g: "generation e conv tgt population s = Inr (parents, children, s')"
    and l: "length population < length (parents @ children)"
  from g have "length (parents @ children) \<le> length population"
    by (rule generation_population_size)
  with l show False by simp
qed

text \<open>
  C4, amended. In \<open>Run\<close>, the working population of generation \<open>i + 1\<close> is exactly the
  parents selected at generation \<open>i\<close> followed by the varied children of generation
  \<open>i\<close>. From a population of size \<open>N\<close> it has \<open>N div 2\<close> parents and
  \<open>4 * (N div 2 div 4)\<close> children: its size is not conserved in general, and it
  never exceeds \<open>N\<close>.
\<close>

theorem Run_next_population:
  assumes "permutes (env_Sort e)" and "8 \<le> length population" and "i < MaxIterations g"
  shows "\<exists>parents children s' best.
      generation e (Converter g) tgt population s = Inr (parents, children, s')
    \<and> getBestChromosome (heap s') children = Inr best
    \<and> (\<not> IsGoodEnough (heap s' best) \<longrightarrow>
          Run_loop e g tgt i population s =
          Run_loop e (g\<lparr>Result := Some best\<rparr>) tgt (i + 1) (parents @ children) s')
    \<and> length parents = length population div 2
    \<and> length children = 4 * (length population div 2 div 4)
    \<and> length (parents @ children) \<le> length population"
proof -
  from generation_returns [OF assms(1,2), of "Converter g" tgt s]
  obtain parents children s' where
    g: "generation e (Converter g) tgt population s = Inr (parents, children, s')" by blast
  from Run_loop_step [OF assms(3) g]
  obtain best where b: "getBestChromosome (heap s') children = Inr best"
    and r: "Run_loop e g tgt i population s =
         (if IsGoodEnough (heap s' best)
          then Inr (g\<lparr>Result := Some best, Status := took_status i\<rparr>, parents @ children, s')
          else Run_loop e (g\<lparr>Result := Some best\<rparr>) tgt (i + 1) (parents @ children) s')"
    by blast
  have n: "\<not> IsGoodEnough (heap s' best) \<longrightarrow>
          Run_loop e g tgt i population s =
          Run_loop e (g\<lparr>Result := Some best\<rparr>) tgt (i + 1) (parents @ children) s'"
    using r by simp
  from generation_sizes [OF g]
  have a: "length parents = length population div 2"
    and c: "length children = 4 * (length population div 2 div 4)" by simp_all
  have le: "length (parents @ children) \<le> length population"
    using g by (rule generation_population_size)
  show ?thesis using g b n a c le by blast
qed

theorem Run_next_population_witness:
  "permutes insertionSort
   \<and> (\<exists>parents children s'.
        generation sample_env (\<lambda>a. a) 0 [0, 1, 2, 3, 4, 5, 6, 7, 8, 9] sample_world
          = Inr (parents, children, s')
        \<and> length parents = 5 \<and> length children = 4)"
proof -
  have p: "permutes (env_Sort sample_env)" by (simp add: insertionSort_permutes)
  have l: "8 \<le> length [0, 1, 2, 3, 4, 5, 6, 7, 8, 9::addr]" by simp
  have i: "0 < MaxIterations (sample_Goga 1)" by simp
  from Run_next_population [OF p l i, of 0 sample_world]
  obtain parents children s' where
    "generation sample_env (Converter (sample_Goga 1)) 0 [0, 1, 2, 3, 4, 5, 6, 7, 8, 9] sample_world
       = Inr (parents, children, s')"
    and "length parents = length [0, 1, 2, 3, 4, 5, 6, 7, 8, 9::addr] div 2"
    and "length children = 4 * (length [0, 1, 2, 3, 4, 5, 6, 7, 8, 9::addr] div 2 div 4)"
    by blast
  then have "generation sample_env (\<lambda>a. a) 0 [0, 1, 2, 3, 4, 5, 6, 7, 8, 9] sample_world
       = Inr (parents, children, s') \<and> length parents = 5 \<and> length children = 4"
    by simp
  then show ?thesis using insertionSort_permutes by blast
qed


text \<open>
  C9. \<open>getBestChromosome\<close> indexes the first element unconditionally: on the empty
  population it panics (and so does \<open>isGoodEnough\<close>), and on every non-empty population
  it returns a member of that population, whose \<open>IsGoodEnough\<close> is the answer of
  \<open>isGoodEnough\<close>. In \<open>Run\<close> the panic cannot happen: whenever the body of the loop
  gets as far as the convergence check, the collection of children is not empty.
\<close>

theorem getBestChromosome_member:
  "getBestChromosome h [] = Inl IndexOutOfRange
   \<and> isGoodEnough h [] = Inl IndexOutOfRange
   \<and> (population \<noteq> [] \<longrightarrow>
        (\<exists>b. getBestChromosome h population = Inr b \<and> b \<in> set population
           \<and> isGoodEnough h population = Inr (IsGoodEnough (h b))))
   \<and> (generation e conv tgt population s = Inr (parents, children, s') \<longrightarrow>
        (\<exists>b. getBestChromosome (heap s') children = Inr b \<and> b \<in> set children))"
proof (intro conjI impI)
  show "getBestChromosome h [] = Inl IndexOutOfRange"
    by (simp add: getBestChromosome_def)
  show "isGoodEnough h [] = Inl IndexOutOfRange"
    by (simp add: isGoodEnough_def getBestChromosome_def)
next
  assume "population \<noteq> []"
  then show "\<exists>b. getBestChromosome h population = Inr b \<and> b \<in> set population
      \<and> isGoodEnough h population = Inr (IsGoodEnough (h b))"
    by (rule getBestChromosome_returns)
next
  assume "generation e conv tgt population s = Inr (parents, children, s')"
  then have "children \<noteq> []" using generation_sizes by blast
  from getBestChromosome_returns [OF this, of "heap s'"]
  show "\<exists>b. getBestChromosome (heap s') children = Inr b \<and> b \<in> set children"
    by blast
qed

theorem getBestChromosome_member_witness:
  "getBestChromosome (\<lambda>a. \<lparr>Fitness = Fin (real a), Value = ()\<rparr>) [3, 9, 4] = Inr 9
   \<and> isGoodEnough (\<lambda>a. \<lparr>Fitness = Fin (real a), Value = ()\<rparr>) [3, 9, 4] = Inr True"
  using getBestChromosome_member
    [of "\<lambda>a. \<lparr>Fitness = Fin (real a), Value = ()\<rparr>" "[3, 9, 4]"]
  by (simp add: getBestChromosome_def isGoodEnough_def betterOf_def GetFitness_def
      f64_gt_def IsGoodEnough_def)

section \<open>The best chromosome has the greatest fitness\<close>

lemma f64_less_irrefl: "\<not> f64_less a a"
  by (cases a) simp_all

lemma f64_less_trans: "f64_less a b \<Longrightarrow> f64_less b c \<Longrightarrow> f64_less a c"
  by (cases a; cases b; cases c) simp_all

lemma f64_less_not_NaN: "f64_less a b \<Longrightarrow> \<not> isNaN b"
  by (cases b) simp_all

lemma betterOf_leads:
  assumes "leads h b S"
  shows "leads h (betterOf h x b) (insert x S)"
proof (cases "isNaN (GetFitness (h b))")
  case True
  then have e: "betterOf h x b = x" by (rule betterOf_leaves_NaN)
  have allNaN: "\<forall>c\<in>S. isNaN (GetFitness (h c))" using assms True by (simp add: leads_def)
  have "\<forall>c\<in>insert x S. \<not> f64_gt (GetFitness (h c)) (GetFitness (h x))"
  proof
    fix c assume "c \<in> insert x S"
    then consider "c = x" | "c \<in> S" by auto
    then show "\<not> f64_gt (GetFitness (h c)) (GetFitness (h x))"
    proof cases
      case 1
      then show ?thesis by (simp add: f64_gt_def f64_less_irrefl)
    next
      case 2
      then have "isNaN (GetFitness (h c))" using allNaN by simp
      then show ?thesis by (cases "GetFitness (h c)") (simp_all add: f64_gt_def)
    qed
  qed
  moreover have "isNaN (GetFitness (h x)) \<longrightarrow> (\<forall>c\<in>insert x S. isNaN (GetFitness (h c)))"
    using allNaN by simp
  ultimately show ?thesis unfolding e leads_def by blast
next
  case False
  have old: "\<forall>c\<in>S. \<not> f64_less (GetFitness (h b)) (GetFitness (h c))"
    using assms by (simp add: leads_def f64_gt_def)
  show ?thesis
  proof (cases "f64_less (GetFitness (h b)) (GetFitness (h x))")
    case True
    then have e: "betterOf h x b = x" by (simp add: betterOf_def f64_gt_def)
    have nx: "\<not> isNaN (GetFitness (h x))" using True by (rule f64_less_not_NaN)
    have "\<forall>c\<in>insert x S. \<not> f64_gt (GetFitness (h c)) (GetFitness (h x))"
    proof
      fix c assume "c \<in> insert x S"
      then consider "c = x" | "c \<in> S" by auto
      then show "\<not> f64_gt (GetFitness (h c)) (GetFitness (h x))"
      proof cases
        case 1
        then show ?thesis by (simp add: f64_gt_def f64_less_irrefl)
      next
        case 2
        show ?thesis
        proof
          assume "f64_gt (GetFitness (h c)) (GetFitness (h x))"
          then have "f64_less (GetFitness (h x)) (GetFitness (h c))" by (simp add: f64_gt_def)
          with True have "f64_less (GetFitness (h b)) (GetFitness (h c))" by (rule f64_less_trans)
          with old 2 show False by simp
        qed
      qed
    qed
    then show ?thesis unfolding e leads_def using nx by blast
  next
    case nl: False
    then have e: "betterOf h x b = b" using False by (simp add: betterOf_def f64_gt_def)
    have "\<forall>c\<in>insert x S. \<not> f64_gt (GetFitness (h c)) (GetFitness (h b))"
      using old nl by (simp add: f64_gt_def)
    then show ?thesis unfolding e leads_def using False by blast
  qed
qed

lemma fold_betterOf_leads:
  "leads h b S \<Longrightarrow> leads h (fold (betterOf h) xs b) (S \<union> set xs)"
proof (induction xs arbitrary: b S)
  case Nil
  then show ?case by simp
next
  case (Cons x xs)
  have "leads h (betterOf h x b) (insert x S)" using Cons.prems by (rule betterOf_leads)
  then have "leads h (fold (betterOf h) xs (betterOf h x b)) (insert x S \<union> set xs)"
    by (rule Cons.IH)
  then show ?case by simp
qed

lemma getBestChromosome_greatest:
  assumes "getBestChromosome h population = Inr best" and "c \<in> set population"
  shows "\<not> f64_gt (GetFitness (h c)) (GetFitness (h best))"
proof -
  from assms(2) obtain x xs where p: "population = x # xs" by (cases population) auto
  have b: "best = fold (betterOf h) population x"
    using assms(1) by (simp add: getBestChromosome_def p)
  have "leads h x {}" by (simp add: leads_def)
  then have "leads h (fold (betterOf h) population x) ({} \<union> set population)"
    by (rule fold_betterOf_leads)
  then show ?thesis using assms(2) unfolding b leads_def by simp
qed

section \<open>What Run returns\<close>




text \<open>
  Two runs on the sample environment, computed through: the first converges in
  generation 0, the second exhausts a bound of two iterations. In both, every fitness
  is a small whole number and every accumulated value a draw compares with \<open>1/2\<close> is
  either \<open>4/8\<close> itself or away from \<open>1/2\<close> by more than \<open>1/200\<close>, so that rounding
  does not change which chromosome a draw selects.
\<close>

lemmas sample_run_defs = Run_def Run_loop.simps generation_def Selection_def Selection_loop.simps
  selectParent_def prepareWheel_def sortNormalized_def sumFitness_def normalizeAll_def
  insertionSort_def Less_def GetFitness_def Normalize_def AccNormalize_def f64_gt_def Let_def
  calculatePopulationFitness_def CalculateFitness_def Crossover_def arrival.simps
  Mutation_def Learn_def vary_def getBestChromosome_def isGoodEnough_def betterOf_def
  IsGoodEnough_def failed_status_def took_status_def show_int_def show_nat.simps

lemma sample_run_converges:
  "(case Run sample_env (sample_Goga 3) 0 [0, 1, 2, 3, 4, 5, 6, 7] sample_world of
      Inl err \<Rightarrow> False
    | Inr (g, population, s) \<Rightarrow>
        Status g = ''Took 0 generations.'' \<and> Result g = Some 102
        \<and> population = [5, 6, 7, 4, 100, 101, 102, 103]
        \<and> map (\<lambda>c. GetFitness (heap s c)) population
            = [Fin 5, Fin 6, Fin 7, Fin 4, Fin 6, Fin 7, Fin 8, Fin 5])"
  by (simp add: sample_run_defs)


text \<open>
  C5. At the end of a generation \<open>Run\<close> takes the best chromosome of the varied
  children alone (the parents are not looked at): a child such that no child has a
  greater fitness. When that child is good enough, \<open>Run\<close> returns at once with the
  child in \<open>Result\<close> and the status \<open>Took i generations.\<close> for the current index
  \<open>i\<close>.
\<close>

theorem Run_converges:
  assumes "permutes (env_Sort e)" and "8 \<le> length population" and "i < MaxIterations g"
  shows "\<exists>parents children s' best.
      generation e (Converter g) tgt population s = Inr (parents, children, s')
    \<and> getBestChromosome (heap s') children = Inr best
    \<and> best \<in> set children
    \<and> (\<forall>c\<in>set children. \<not> f64_gt (GetFitness (heap s' c)) (GetFitness (heap s' best)))
    \<and> isGoodEnough (heap s') children = Inr (IsGoodEnough (heap s' best))
    \<and> (IsGoodEnough (heap s' best) \<longrightarrow>
          Run_loop e g tgt i population s =
          Inr (g\<lparr>Result := Some best, Status := ''Took '' @ show_int i @ '' generations.''\<rparr>,
               parents @ children, s'))"
proof -
  from generation_returns [OF assms(1,2), of "Converter g" tgt s]
  obtain parents children s' where
    g: "generation e (Converter g) tgt population s = Inr (parents, children, s')" by blast
  from Run_loop_step [OF assms(3) g]
  obtain best where b: "getBestChromosome (heap s') children = Inr best"
    and m: "best \<in> set children"
    and r: "Run_loop e g tgt i population s =
         (if IsGoodEnough (heap s' best)
          then Inr (g\<lparr>Result := Some best, Status := took_status i\<rparr>, parents @ children, s')
          else Run_loop e (g\<lparr>Result := Some best\<rparr>) tgt (i + 1) (parents @ children) s')"
    by blast
  have gr: "\<forall>c\<in>set children. \<not> f64_gt (GetFitness (heap s' c)) (GetFitness (heap s' best))"
  proof
    fix c assume "c \<in> set children"
    with b show "\<not> f64_gt (GetFitness (heap s' c)) (GetFitness (heap s' best))"
      by (rule getBestChromosome_greatest)
  qed
  have ge: "isGoodEnough (heap s') children = Inr (IsGoodEnough (heap s' best))"
    using b by (simp add: isGoodEnough_def)
  have y: "IsGoodEnough (heap s' best) \<longrightarrow>
          Run_loop e g tgt i population s =
          Inr (g\<lparr>Result := Some best, Status := ''Took '' @ show_int i @ '' generations.''\<rparr>,
               parents @ children, s')"
    using r by (simp add: took_status_def)
  show ?thesis using g b m gr ge y by blast
qed

theorem Run_converges_witness:
  "permutes insertionSort
   \<and> (\<exists>parents children s' best.
        generation sample_env (\<lambda>a. a) 0 [0, 1, 2, 3, 4, 5, 6, 7] sample_world
          = Inr (parents, children, s')
        \<and> getBestChromosome (heap s') children = Inr best \<and> best \<in> set children)
   \<and> (case Run sample_env (sample_Goga 3) 0 [0, 1, 2, 3, 4, 5, 6, 7] sample_world of
         Inl err \<Rightarrow> False
       | Inr (g, population, s) \<Rightarrow>
           Status g = ''Took 0 generations.'' \<and> Result g = Some 102
           \<and> population = [5, 6, 7, 4, 100, 101, 102, 103]
           \<and> map (\<lambda>c. GetFitness (heap s c)) population
               = [Fin 5, Fin 6, Fin 7, Fin 4, Fin 6, Fin 7, Fin 8, Fin 5])"
proof -
  have p: "permutes (env_Sort sample_env)" by (simp add: insertionSort_permutes)
  have l: "8 \<le> length [0, 1, 2, 3, 4, 5, 6, 7::addr]" by simp
  have i: "0 < MaxIterations (sample_Goga 3)" by simp
  from Run_converges [OF p l i, of 0 sample_world]
  obtain parents children s' best where
    "generation sample_env (Converter (sample_Goga 3)) 0 [0, 1, 2, 3, 4, 5, 6, 7] sample_world
       = Inr (parents, children, s')"
    and "getBestChromosome (heap s') children = Inr best" and "best \<in> set children"
    by blast
  then have "generation sample_env (\<lambda>a. a) 0 [0, 1, 2, 3, 4, 5, 6, 7] sample_world
       = Inr (parents, children, s')
     \<and> getBestChromosome (heap s') children = Inr best \<and> best \<in> set children"
    by simp
  then show ?thesis using insertionSort_permutes sample_run_converges by blast
qed



end
